theory Spec2Isabelle
  imports Main "HOL-Library.Word" "HOL-Library.Multiset" "HOL-Library.AList"
begin

unbundle bit_operations_syntax

section \<open>Share-code decoding (\<open>decode_share_ids\<close>)\<close>

subsection \<open>Errors\<close>

text \<open>
  The exceptions of \<open>base64.b64decode\<close>: a \<open>str\<close> argument that is not pure ASCII
  (\<open>ValueError\<close>), and the two \<open>binascii.Error\<close>s of the lenient decoder.
\<close>

datatype b64_exception = NonAscii | InvalidLength | IncorrectPadding

text \<open>
  The failures of \<open>decode_share_ids\<close>. Both \<open>ValueError\<close>s of the source carry a formatted
  message: the first one the text of the library's exception, the second one the actual
  length \<open>len(arr)\<close>; the constructors carry the interpolated value. \<open>IndexError\<close> is what
  Python raises on a list index out of range and on \<open>pop\<close> from an empty list.
\<close>

datatype error = Base64DecodeFailed b64_exception | LengthMismatch nat | IndexError

subsection \<open>Normalisation of the token (lines 40 to 43)\<close>

definition replace :: "char \<Rightarrow> char \<Rightarrow> string \<Rightarrow> string" where
  "replace old new s = map (\<lambda>c. if c = old then new else c) s"

definition normalize_token :: "string \<Rightarrow> string" where
  "normalize_token b64_string =
     (let s = replace (CHR ''_'') (CHR ''/'') (replace (CHR ''-'') (CHR ''+'') b64_string);
          missing_padding = length s mod 4
      in if missing_padding \<noteq> 0 then s @ replicate (4 - missing_padding) (CHR ''='') else s)"

subsection \<open>The library call \<open>base64.b64decode\<close>\<close>

text \<open>
  \<open>base64.b64decode(s)\<close> with its default arguments first encodes a \<open>str\<close> as ASCII and then
  runs \<open>binascii.a2b_base64\<close> in its lenient mode: characters outside the alphabet are
  skipped, a \<open>=\<close> ends the input once it completes a quad that already holds two or three
  data characters, and an incomplete quad at the end of the input is an error.
  \<open>table_a2b_base64\<close> is the value of a character of the standard alphabet.
\<close>

definition table_a2b_base64 :: "char \<Rightarrow> 8 word option" where
  "table_a2b_base64 c =
     (let n = (of_char c :: nat) in
      if 65 \<le> n \<and> n \<le> 90 then Some (of_nat (n - 65))
      else if 97 \<le> n \<and> n \<le> 122 then Some (of_nat (n - 71))
      else if 48 \<le> n \<and> n \<le> 57 then Some (of_nat (n + 4))
      else if n = 43 then Some 62
      else if n = 47 then Some 63
      else None)"

text \<open>
  The decoder's loop over the input, with its variables \<open>quad_pos\<close>, \<open>pads\<close>, \<open>leftchar\<close>
  and the output written so far.
\<close>

fun a2b_loop :: "string \<Rightarrow> nat \<Rightarrow> nat \<Rightarrow> 8 word \<Rightarrow> 8 word list \<Rightarrow> b64_exception + 8 word list" where
  "a2b_loop [] quad_pos pads leftchar out =
     (if quad_pos \<noteq> 0
      then (if quad_pos = 1 then Inl InvalidLength else Inl IncorrectPadding)
      else Inr out)"
| "a2b_loop (c # cs) quad_pos pads leftchar out =
     (if c = CHR ''='' then
        (if quad_pos \<ge> 2 then
           (if quad_pos + (pads + 1) \<ge> 4 then Inr out
            else a2b_loop cs quad_pos (pads + 1) leftchar out)
         else a2b_loop cs quad_pos pads leftchar out)
      else
        (case table_a2b_base64 c of
           None \<Rightarrow> a2b_loop cs quad_pos pads leftchar out
         | Some this_ch \<Rightarrow>
             (if quad_pos = 0 then a2b_loop cs 1 0 this_ch out
              else if quad_pos = 1 then
                a2b_loop cs 2 0 (this_ch AND 0x0f)
                  (out @ [push_bit 2 leftchar OR drop_bit 4 this_ch])
              else if quad_pos = 2 then
                a2b_loop cs 3 0 (this_ch AND 0x03)
                  (out @ [push_bit 4 leftchar OR drop_bit 2 this_ch])
              else
                a2b_loop cs 0 0 0 (out @ [push_bit 6 leftchar OR this_ch]))))"

definition a2b_base64 :: "string \<Rightarrow> b64_exception + 8 word list" where
  "a2b_base64 s = a2b_loop s 0 0 0 []"

definition b64decode :: "string \<Rightarrow> b64_exception + 8 word list" where
  "b64decode s =
     (if list_ex (\<lambda>c. (of_char c :: nat) \<ge> 128) s then Inl NonAscii else a2b_base64 s)"

subsection \<open>List accesses that can raise\<close>

definition get :: "'a list \<Rightarrow> nat \<Rightarrow> error + 'a" where
  "get xs i = (if i < length xs then Inr (xs ! i) else Inl IndexError)"

definition pop :: "'a list \<Rightarrow> error + ('a \<times> 'a list)" where
  "pop xs = (if xs = [] then Inl IndexError else Inr (last xs, butlast xs))"

subsection \<open>Reordering and de-obfuscation (lines 56 to 64)\<close>

text \<open>
  One \<open>for i in range(25)\<close> loop appending \<open>(arr[idx i] - last) & 0xff\<close>; \<open>idx\<close> is
  \<open>2 * i\<close> in the first loop and \<open>2 * i + 1\<close> in the second.
\<close>

fun reorder_loop :: "(nat \<Rightarrow> nat) \<Rightarrow> int list \<Rightarrow> int \<Rightarrow> nat list \<Rightarrow> int list \<Rightarrow> error + int list" where
  "reorder_loop idx arr last_b [] reordered = Inr reordered"
| "reorder_loop idx arr last_b (i # rest) reordered =
     (case get arr (idx i) of
        Inl e \<Rightarrow> Inl e
      | Inr a \<Rightarrow> reorder_loop idx arr last_b rest (reordered @ [(a - last_b) AND 0xff]))"

definition reorder :: "int list \<Rightarrow> error + int list" where
  "reorder arr0 =
     (case pop arr0 of
        Inl e \<Rightarrow> Inl e
      | Inr (last_b, arr) \<Rightarrow>
          (case reorder_loop (\<lambda>i. 2 * i) arr last_b [0..<25] [] of
             Inl e \<Rightarrow> Inl e
           | Inr r1 \<Rightarrow>
               (case reorder_loop (\<lambda>i. 2 * i + 1) arr last_b [0..<25] r1 of
                  Inl e \<Rightarrow> Inl e
                | Inr r2 \<Rightarrow> Inr (r2 @ [0]))))"

subsection \<open>Unpacking 12-bit values (lines 67 to 80)\<close>

definition n1 :: "int \<Rightarrow> int \<Rightarrow> int" where
  "n1 b1 b2 = push_bit 4 b1 OR drop_bit 4 b2"

definition n2 :: "int \<Rightarrow> int \<Rightarrow> int" where
  "n2 b2 b3 = push_bit 8 (b2 AND 0x0f) OR b3"

text \<open>The \<open>for i in range(17)\<close> loop, with its \<open>break\<close> when a chunk would leave the buffer.\<close>

fun chunk_loop :: "int list \<Rightarrow> nat list \<Rightarrow> int list \<Rightarrow> error + int list" where
  "chunk_loop reordered [] result = Inr result"
| "chunk_loop reordered (i # rest) result =
     (let chunk_start = i * 3 in
      if chunk_start + 2 \<ge> length reordered then Inr result
      else
        (case get reordered chunk_start of
           Inl e \<Rightarrow> Inl e
         | Inr b1 \<Rightarrow>
             (case get reordered (chunk_start + 1) of
                Inl e \<Rightarrow> Inl e
              | Inr b2 \<Rightarrow>
                  (case get reordered (chunk_start + 2) of
                     Inl e \<Rightarrow> Inl e
                   | Inr b3 \<Rightarrow>
                       chunk_loop reordered rest (result @ [n1 b1 b2, n2 b2 b3])))))"

definition unpack :: "int list \<Rightarrow> error + int list" where
  "unpack reordered =
     (case chunk_loop reordered [0..<17] [] of
        Inl e \<Rightarrow> Inl e
      | Inr result \<Rightarrow>
          (case pop result of
             Inl e \<Rightarrow> Inl e
           | Inr (dropped, result') \<Rightarrow> Inr result'))"

subsection \<open>The whole function\<close>

definition decode_arr :: "int list \<Rightarrow> error + int list" where
  "decode_arr arr =
     (case reorder arr of
        Inl e \<Rightarrow> Inl e
      | Inr reordered \<Rightarrow> unpack reordered)"

definition decode_share_ids :: "string \<Rightarrow> error + int list" where
  "decode_share_ids b64_string =
     (case b64decode (normalize_token b64_string) of
        Inl e \<Rightarrow> Inl (Base64DecodeFailed e)
      | Inr arr_bytes \<Rightarrow>
          (let arr = map uint arr_bytes in
           if length arr \<noteq> 51 then Inl (LengthMismatch (length arr))
           else decode_arr arr))"

subsection \<open>The steps as the specification words them\<close>

text \<open>
  Step 4 of the specification, written out: the buffer rebuilt from the 50 working bytes
  \<open>butlast arr\<close> and the key \<open>last arr\<close>.
\<close>

definition reordered_of :: "int list \<Rightarrow> int list" where
  "reordered_of arr =
     map (\<lambda>i. (butlast arr ! (2 * i) - last arr) AND 0xff) [0..<25] @
     map (\<lambda>i. (butlast arr ! (2 * i + 1) - last arr) AND 0xff) [0..<25] @ [0]"

text \<open>The values the chunk loop appends when none of its 17 rounds breaks.\<close>

definition values_of :: "int list \<Rightarrow> int list" where
  "values_of r =
     concat (map (\<lambda>i. [n1 (r ! (i * 3)) (r ! (i * 3 + 1)), n2 (r ! (i * 3 + 1)) (r ! (i * 3 + 2))])
       [0..<17])"

text \<open>
  Step 5 of the specification: the buffer cut into consecutive chunks of three bytes, each
  chunk \<open>(b1, b2, b3)\<close> giving \<open>(b1 << 4) | (b2 >> 4)\<close> and then
  \<open>((b2 & 0x0F) << 8) | b3\<close>, the formulas written out on Python integers.
\<close>

fun chunks3 :: "'a list \<Rightarrow> ('a \<times> 'a \<times> 'a) list" where
  "chunks3 (b1 # b2 # b3 # rest) = (b1, b2, b3) # chunks3 rest"
| "chunks3 _ = []"

definition spec_values :: "int list \<Rightarrow> int list" where
  "spec_values r =
     concat (map (\<lambda>(b1, b2, b3). [push_bit 4 b1 OR drop_bit 4 b2, push_bit 8 (b2 AND 0x0F) OR b3])
       (chunks3 r))"

text \<open>
  The characters of the standard and of the URL-safe alphabet: the data characters a token
  is made of.
\<close>

definition token_char :: "char \<Rightarrow> bool" where
  "token_char c = (table_a2b_base64 c \<noteq> None \<or> c = CHR ''-'' \<or> c = CHR ''_'')"

section \<open>The share-ID to identifier map (\<open>get_card_id_map\<close>)\<close>

text \<open>
  The dictionary \<open>dict[int, int]\<close> is an association list in insertion order; an empty
  dictionary is falsy.
\<close>

type_synonym id_map = "(int \<times> int) list"

text \<open>
  An entry of a catalog. \<open>item_shareId\<close> is \<open>None\<close> when the key \<open>shareId\<close> is missing,
  \<open>Some None\<close> when its value is \<open>null\<close>, and \<open>Some (Some n)\<close> for the integer \<open>n\<close>;
  \<open>item_id\<close> is \<open>None\<close> when the key \<open>id\<close> is missing.
\<close>

record item =
  item_shareId :: "int option option"
  item_id :: "int option"

text \<open>
  What \<open>resp.json()\<close> gives: an exception (\<open>NotJson\<close>: the body is not parsable), or an
  object of which the code reads the truthiness of \<open>data.get("success")\<close> and the list
  \<open>data.get("data", [])\<close>.
\<close>

datatype body = NotJson | Json bool "item list"

record response =
  status :: nat
  body :: body

text \<open>What \<open>session.get(url)\<close> gives: an exception of the client, or a response.\<close>

datatype fetched = ConnectionFailed | Response response

datatype resolve_error = ClientError | ResponseError nat | JsonError

text \<open>
  The process-wide state: the global \<open>SHARE_ID_TO_ID_MAP\<close> (\<open>None\<close> at start), and the log
  of the URLs requested from the catalog so far.
\<close>

record state =
  SHARE_ID_TO_ID_MAP :: "id_map option"
  requests :: "string list"

definition urls :: "string list" where
  "urls =
     [''https://static-data.7shengzhaohuan.online/api/v4/data/beta/CHS/characters'',
      ''https://static-data.7shengzhaohuan.online/api/v4/data/beta/CHS/action_cards'']"

text \<open>Lines 110 to 113: one entry of a catalog.\<close>

definition add_item :: "id_map \<Rightarrow> item \<Rightarrow> id_map" where
  "add_item id_map it =
     (case item_shareId it of
        None \<Rightarrow> id_map
      | Some sid \<Rightarrow>
          (case item_id it of
             None \<Rightarrow> id_map
           | Some i \<Rightarrow>
               (case sid of
                  None \<Rightarrow> id_map
                | Some n \<Rightarrow> if n \<noteq> 0 then AList.update n i id_map else id_map)))"

text \<open>
  \<open>resp.raise_for_status()\<close> of the HTTP client library: raises for a status of 400 or
  more, returns otherwise.
\<close>

definition raise_for_status :: "response \<Rightarrow> resolve_error + unit" where
  "raise_for_status resp = (if status resp \<ge> 400 then Inl (ResponseError (status resp)) else Inr ())"

text \<open>\<open>asyncio.gather\<close> over the requests: an exception of any of them is raised.\<close>

fun gather :: "fetched list \<Rightarrow> resolve_error + response list" where
  "gather [] = Inr []"
| "gather (ConnectionFailed # rest) = Inl ClientError"
| "gather (Response r # rest) =
     (case gather rest of Inl e \<Rightarrow> Inl e | Inr rs \<Rightarrow> Inr (r # rs))"

text \<open>Lines 105 to 115: the loop over the responses.\<close>

fun responses_loop :: "response list \<Rightarrow> id_map \<Rightarrow> resolve_error + id_map" where
  "responses_loop [] id_map = Inr id_map"
| "responses_loop (resp # rest) id_map =
     (if status resp = 200 then
        (case body resp of
           NotJson \<Rightarrow> Inl JsonError
         | Json success items \<Rightarrow>
             if success then responses_loop rest (foldl add_item id_map items)
             else responses_loop rest id_map)
      else
        (case raise_for_status resp of
           Inl e \<Rightarrow> Inl e
         | Inr u \<Rightarrow> responses_loop rest id_map))"

text \<open>
  Lines 96 to 103: the requests for the two catalogs are issued. The coroutine then
  suspends at \<open>await asyncio.gather\<close>; other calls can run before it resumes.
\<close>

definition start_fetch :: "state \<Rightarrow> state" where
  "start_fetch st = st\<lparr>requests := requests st @ urls\<rparr>"

text \<open>
  Lines 104 to 118, from the moment the network has answered: \<open>session_get\<close> is what it
  answers to each URL, and \<open>st\<close> is the process state at that moment. Between the
  answer and the assignment of line 117 the coroutine reads and writes only its local
  \<open>id_map\<close>, so its suspensions at \<open>await resp.json()\<close> do not show. The global is
  assigned only when the loop has ended without an exception.
\<close>

definition finish_build :: "(string \<Rightarrow> fetched) \<Rightarrow> state \<Rightarrow> (resolve_error + id_map) \<times> state" where
  "finish_build session_get st =
     (case gather (map session_get urls) of
        Inl e \<Rightarrow> (Inl e, st)
      | Inr responses \<Rightarrow>
          (case responses_loop responses [] of
             Inl e \<Rightarrow> (Inl e, st)
           | Inr id_map \<Rightarrow> (Inr id_map, st\<lparr>SHARE_ID_TO_ID_MAP := Some id_map\<rparr>)))"

text \<open>Lines 96 to 118 of a call that no other call overlaps.\<close>

definition build_map :: "(string \<Rightarrow> fetched) \<Rightarrow> state \<Rightarrow> (resolve_error + id_map) \<times> state" where
  "build_map session_get st = finish_build session_get (start_fetch st)"

text \<open>
  One whole call that no other call overlaps: the cache test of line 93, by truthiness,
  and the build.
\<close>

definition get_card_id_map :: "(string \<Rightarrow> fetched) \<Rightarrow> state \<Rightarrow> (resolve_error + id_map) \<times> state" where
  "get_card_id_map session_get st =
     (case SHARE_ID_TO_ID_MAP st of
        None \<Rightarrow> build_map session_get st
      | Some m \<Rightarrow> if m \<noteq> [] then (Inr m, st) else build_map session_get st)"

text \<open>
  Calls under the event loop. \<open>Start\<close> is a call running from its entry to its first
  suspension: it returns the cached map at once, or issues its requests and is then in
  flight. \<open>Complete session_get\<close> is a call in flight resuming with the answers
  \<open>session_get\<close> and running to its end. The calls in flight differ in nothing but the
  answers they will get, so the state of the schedule is the process state and their
  number; a \<open>Complete\<close> with no call in flight cannot happen and is passed over.
  \<open>run_events\<close> gives the results in the order the calls end.
\<close>

datatype event = Start | Complete "string \<Rightarrow> fetched"

fun run_events :: "event list \<Rightarrow> state \<times> nat \<Rightarrow> (resolve_error + id_map) list \<times> state \<times> nat" where
  "run_events [] (st, in_flight) = ([], st, in_flight)"
| "run_events (Start # evs) (st, in_flight) =
     (case SHARE_ID_TO_ID_MAP st of
        None \<Rightarrow> run_events evs (start_fetch st, in_flight + 1)
      | Some m \<Rightarrow>
          if m \<noteq> [] then (case run_events evs (st, in_flight) of (rs, s) \<Rightarrow> (Inr m # rs, s))
          else run_events evs (start_fetch st, in_flight + 1))"
| "run_events (Complete session_get # evs) (st, in_flight) =
     (if in_flight = 0 then run_events evs (st, in_flight)
      else
        (case finish_build session_get st of
           (r, st1) \<Rightarrow>
             (case run_events evs (st1, in_flight - 1) of (rs, s) \<Rightarrow> (r # rs, s))))"


definition initial_state :: state where
  "initial_state = \<lparr>SHARE_ID_TO_ID_MAP = None, requests = []\<rparr>"

section \<open>Slot classification (\<open>generate_deck_image\<close>, lines 177 to 186)\<close>

text \<open>\<open>str\<close> of a Python integer: its decimal digits, after a minus sign when negative.\<close>

definition digit_char :: "nat \<Rightarrow> char" where
  "digit_char d = ''0123456789'' ! d"

fun digits :: "nat \<Rightarrow> string" where
  "digits n = (if n < 10 then [digit_char n] else digits (n div 10) @ [digit_char (n mod 10)])"

declare digits.simps [simp del]

definition str :: "int \<Rightarrow> string" where
  "str i = (if i < 0 then CHR ''-'' # digits (nat (- i)) else digits (nat i))"

text \<open>\<open>id_map.get(sid, 0)\<close>.\<close>

definition dict_get :: "id_map \<Rightarrow> int \<Rightarrow> int \<Rightarrow> int" where
  "dict_get id_map k d = (case map_of id_map k of None \<Rightarrow> d | Some v \<Rightarrow> v)"

definition resolve_ids :: "id_map \<Rightarrow> int list \<Rightarrow> int list" where
  "resolve_ids id_map share_ids = map (\<lambda>sid. dict_get id_map sid 0) share_ids"

text \<open>The placeholder \<open>None\<close> is \<open>None\<close>; an identifier \<open>cid\<close> that is kept is \<open>Some cid\<close>.\<close>

definition main_cards :: "int list \<Rightarrow> int option list" where
  "main_cards card_ids =
     map (\<lambda>cid. if cid \<noteq> 0 \<and> length (str cid) \<ge> 4 then Some cid else None) (take 3 card_ids)"

definition small_cards_valid :: "int list \<Rightarrow> int list" where
  "small_cards_valid card_ids =
     filter (\<lambda>cid. cid \<noteq> 0 \<and> length (str cid) \<ge> 6) (drop 3 card_ids)"

definition small_cards_invalid :: "int list \<Rightarrow> int option list" where
  "small_cards_invalid card_ids =
     map (\<lambda>cid. None) (filter (\<lambda>cid. \<not> cid \<noteq> 0 \<or> length (str cid) < 6) (drop 3 card_ids))"

definition arrange_card_ids :: "id_map \<Rightarrow> int list \<Rightarrow> int option list" where
  "arrange_card_ids id_map share_ids =
     (let card_ids = resolve_ids id_map share_ids
      in main_cards card_ids @ map Some (sort (small_cards_valid card_ids)) @ small_cards_invalid card_ids)"

section \<open>Example inputs\<close>

definition example_token :: string where
  "example_token = ''DRQbIikwNz5FTFNaYWhvdn2Ei5KZoKeutbzDytHY3-bt9PsCCRAXHiUsMzpBSE9WXWQF''"

definition example_bytes :: "8 word list" where
  "example_bytes =
     [13, 20, 27, 34, 41, 48, 55, 62, 69, 76, 83, 90, 97, 104, 111, 118, 125, 132, 139, 146,
      153, 160, 167, 174, 181, 188, 195, 202, 209, 216, 223, 230, 237, 244, 251, 2, 9, 16, 23,
      30, 37, 44, 51, 58, 65, 72, 79, 86, 93, 100, 5]"

definition example_ids :: "int list" where
  "example_ids =
     [129, 1572, 804, 78, 1478, 2680, 2153, 1186, 2827, 3788, 3502, 2294, 65, 544, 739, 3146,
      1408, 3869, 691, 2375, 1366, 881, 2040, 3483, 2715, 1989, 3390, 495, 4048, 2841, 627,
      1347, 1301]"

definition example_spaced_token :: string where
  "example_spaced_token = ''DRQbIikwNz5FTFNaYWhvdn2Ei5KZoKeutbzD ytHY3-bt9PsCCRAXHiUsMzpBSE9WXWQF''"

definition example_partial_net :: "string \<Rightarrow> fetched" where
  "example_partial_net url =
     (if url = urls ! 0 then Response \<lparr>status = 200, body = Json False []\<rparr>
      else Response \<lparr>status = 200,
             body = Json True [\<lparr>item_shareId = Some (Some 1), item_id = Some 1101\<rparr>]\<rparr>)"

definition example_empty_net :: "string \<Rightarrow> fetched" where
  "example_empty_net url = Response \<lparr>status = 200, body = Json True []\<rparr>"

definition example_failing_net :: "string \<Rightarrow> fetched" where
  "example_failing_net url =
     (if url = urls ! 0 then Response \<lparr>status = 200, body = Json True []\<rparr>
      else Response \<lparr>status = 503, body = NotJson\<rparr>)"


definition example_id_map :: id_map where
  "example_id_map =
     [(129, 1101), (1572, 27), (804, 0), (78, 332001), (1478, 211011), (2680, 99999),
      (2153, 0), (1186, 312004), (65, 211011), (1301, 330001)]"

definition example_card_ids :: "int list" where
  "example_card_ids =
     [1101, 27, 0, 332001, 211011, 99999, 0, 312004, 0, 0, 0, 0, 211011, 0, 0, 0, 0, 0, 0, 0, 0,
      0, 0, 0, 0, 0, 0, 0, 0, 0, 0, 0, 330001]"

section \<open>Properties of the decoder\<close>

subsection \<open>The loops\<close>

lemma get_in_range: "i < length xs \<Longrightarrow> get xs i = Inr (xs ! i)"
  by (simp add: get_def)

lemma reorder_loop_ok:
  "\<forall>i\<in>set js. idx i < length arr \<Longrightarrow>
   reorder_loop idx arr l js acc = Inr (acc @ map (\<lambda>i. (arr ! idx i - l) AND 0xff) js)"
  by (induction js arbitrary: acc) (simp_all add: get_in_range)

lemma chunk_loop_ok:
  "\<forall>i\<in>set js. i * 3 + 2 < length r \<Longrightarrow>
   chunk_loop r js acc =
     Inr (acc @ concat (map (\<lambda>i. [n1 (r ! (i * 3)) (r ! (i * 3 + 1)),
                                   n2 (r ! (i * 3 + 1)) (r ! (i * 3 + 2))]) js))"
  by (induction js arbitrary: acc) (simp_all add: get_in_range Let_def)

lemma reorder_51: "length arr = 51 \<Longrightarrow> reorder arr = Inr (reordered_of arr)"
proof -
  assume l: "length arr = 51"
  then have ne: "arr \<noteq> []" by auto
  have lb: "length (butlast arr) = 50" using l by simp
  have a: "\<forall>i\<in>set [0..<25]. 2 * i < length (butlast arr)" unfolding lb by auto
  have b: "\<forall>i\<in>set [0..<25]. 2 * i + 1 < length (butlast arr)" unfolding lb by auto
  show ?thesis
    unfolding reorder_def reordered_of_def pop_def
    using ne
    by (simp only: if_False sum.case prod.case reorder_loop_ok [OF a] reorder_loop_ok [OF b]
        append_Nil append_assoc)
qed

lemma length_reordered_of: "length (reordered_of arr) = 51"
  by (simp add: reordered_of_def)

lemma length_concat_pairs: "length (concat (map (\<lambda>i. [f i, g i]) js)) = 2 * length js"
  by (induction js) simp_all

lemma length_values_of: "length (values_of r) = 34"
  by (simp add: values_of_def length_concat_pairs del: upt_Suc)

lemma unpack_51: "length r = 51 \<Longrightarrow> unpack r = Inr (butlast (values_of r))"
proof -
  assume l: "length r = 51"
  have a: "\<forall>i\<in>set [0..<17]. i * 3 + 2 < length r" unfolding l by auto
  have ne: "values_of r \<noteq> []" using length_values_of [of r] by auto
  show ?thesis
    unfolding unpack_def pop_def chunk_loop_ok [OF a] values_of_def [symmetric]
    using ne by simp
qed

lemma decode_arr_51:
  "length arr = 51 \<Longrightarrow> decode_arr arr = Inr (butlast (values_of (reordered_of arr)))"
  by (simp add: decode_arr_def reorder_51 unpack_51 length_reordered_of)

lemma decode_share_ids_51:
  assumes "b64decode (normalize_token s) = Inr bs" and "length bs = 51"
  shows "decode_share_ids s = Inr (butlast (values_of (reordered_of (map uint bs))))"
  using assms by (simp add: decode_share_ids_def decode_arr_51)

subsection \<open>Bit arithmetic\<close>

lemma and_255_mod: "(x::int) AND 0xff = x mod 256"
proof -
  have "x AND mask 8 = take_bit 8 x" by (simp only: take_bit_eq_mask)
  then show ?thesis by (simp add: take_bit_eq_mod mask_eq_exp_minus_1)
qed

lemma n1_range:
  assumes "0 \<le> b1" "b1 \<le> 255" "0 \<le> b2" "b2 \<le> 255"
  shows "0 \<le> n1 b1 b2 \<and> n1 b1 b2 \<le> 4095"
proof -
  have p: "push_bit 4 b1 < 2 ^ 12" using assms by (simp add: push_bit_eq_mult)
  have p0: "0 \<le> push_bit 4 b1" using assms by simp
  have d: "drop_bit 4 b2 < 2 ^ 12" using assms by (simp add: drop_bit_eq_div)
  have d0: "0 \<le> drop_bit 4 b2" using assms by simp
  have "push_bit 4 b1 OR drop_bit 4 b2 < 2 ^ 12" using p0 p d by (rule OR_upper)
  moreover have "0 \<le> push_bit 4 b1 OR drop_bit 4 b2" using p0 d0 by simp
  ultimately show ?thesis by (simp add: n1_def)
qed

lemma n2_range:
  assumes "0 \<le> b2" "0 \<le> b3" "b3 \<le> 255"
  shows "0 \<le> n2 b2 b3 \<and> n2 b2 b3 \<le> 4095"
proof -
  have m: "b2 AND 0x0f \<le> 15" by (rule AND_upper2) simp
  have m0: "0 \<le> b2 AND 0x0f" by simp
  have p: "push_bit 8 (b2 AND 0x0f) < 2 ^ 12" using m by (simp add: push_bit_eq_mult)
  have p0: "0 \<le> push_bit 8 (b2 AND 0x0f)" using m0 by simp
  have "b3 < 2 ^ 12" using assms by simp
  with p0 p have "push_bit 8 (b2 AND 0x0f) OR b3 < 2 ^ 12" by (rule OR_upper)
  moreover have "0 \<le> push_bit 8 (b2 AND 0x0f) OR b3" using p0 assms by simp
  ultimately show ?thesis by (simp add: n2_def)
qed

lemma reordered_of_bytes: "x \<in> set (reordered_of arr) \<Longrightarrow> 0 \<le> x \<and> x \<le> 255"
proof -
  have u: "\<And>y::int. y AND 0xff \<le> 255" by (rule AND_upper2) simp
  assume "x \<in> set (reordered_of arr)"
  then show ?thesis unfolding reordered_of_def using u by auto
qed

lemma values_of_range:
  assumes l: "length r = 51" and b: "\<forall>x\<in>set r. 0 \<le> x \<and> x \<le> 255"
  shows "\<forall>v\<in>set (values_of r). 0 \<le> v \<and> v \<le> 4095"
proof
  fix v assume "v \<in> set (values_of r)"
  then obtain i where i: "i < 17"
    and v: "v = n1 (r ! (i * 3)) (r ! (i * 3 + 1)) \<or> v = n2 (r ! (i * 3 + 1)) (r ! (i * 3 + 2))"
    unfolding values_of_def by auto
  have "r ! (i * 3) \<in> set r" "r ! (i * 3 + 1) \<in> set r" "r ! (i * 3 + 2) \<in> set r"
    using i l by simp_all
  then have "0 \<le> r ! (i * 3) \<and> r ! (i * 3) \<le> 255"
    "0 \<le> r ! (i * 3 + 1) \<and> r ! (i * 3 + 1) \<le> 255"
    "0 \<le> r ! (i * 3 + 2) \<and> r ! (i * 3 + 2) \<le> 255"
    using b by blast+
  then show "0 \<le> v \<and> v \<le> 4095" using v n1_range n2_range by blast
qed

lemma decode_share_ids_shape:
  assumes "decode_share_ids s = Inr ids"
  shows "length ids = 33 \<and> (\<forall>x\<in>set ids. 0 \<le> x \<and> x \<le> 4095)"
proof -
  from assms obtain bs where bs: "b64decode (normalize_token s) = Inr bs" and l: "length bs = 51"
    by (auto simp: decode_share_ids_def Let_def split: sum.splits if_splits)
  let ?r = "reordered_of (map uint bs)"
  have ids: "ids = butlast (values_of ?r)"
    using decode_share_ids_51 [OF bs l] assms by simp
  have "\<forall>v\<in>set (values_of ?r). 0 \<le> v \<and> v \<le> 4095"
    by (rule values_of_range) (simp_all add: length_reordered_of reordered_of_bytes)
  then have "\<forall>x\<in>set ids. 0 \<le> x \<and> x \<le> 4095"
    unfolding ids by (meson in_set_butlastD)
  then show ?thesis unfolding ids by (simp add: length_values_of)
qed

subsection \<open>The result for a token that decodes to 51 bytes\<close>

text \<open>
  Claim C1. For every input string whose normalised form Base64-decodes to exactly 51 raw
  bytes, \<open>decode_share_ids\<close> returns (the model is a total function, and its value here is
  a result, not an error) a list of exactly 33 integers, each between 0 and 4095.
\<close>

theorem decode_share_ids_33:
  assumes "b64decode (normalize_token s) = Inr bs" and "length bs = 51"
  shows "\<exists>ids. decode_share_ids s = Inr ids \<and> length ids = 33 \<and> (\<forall>x\<in>set ids. 0 \<le> x \<and> x \<le> 4095)"
proof -
  have "decode_share_ids s = Inr (butlast (values_of (reordered_of (map uint bs))))"
    using assms by (rule decode_share_ids_51)
  then show ?thesis using decode_share_ids_shape by blast
qed

theorem decode_share_ids_33_witness:
  "b64decode (normalize_token example_token) = Inr example_bytes \<and> length example_bytes = 51 \<and>
   (\<exists>ids. decode_share_ids example_token = Inr ids \<and> length ids = 33 \<and>
      (\<forall>x\<in>set ids. 0 \<le> x \<and> x \<le> 4095))"
proof -
  have h1: "b64decode (normalize_token example_token) = Inr example_bytes" by code_simp
  have h2: "length example_bytes = 51" by code_simp
  show ?thesis using h1 h2 decode_share_ids_33 [OF h1 h2] by blast
qed

subsection \<open>The reordered buffer\<close>

lemma reordered_of_nth:
  "i < 25 \<Longrightarrow> reordered_of arr ! i = (butlast arr ! (2 * i) - last arr) mod 256"
  "i < 25 \<Longrightarrow> reordered_of arr ! (25 + i) = (butlast arr ! (2 * i + 1) - last arr) mod 256"
  "reordered_of arr ! 50 = 0"
proof -
  let ?a = "map (\<lambda>i. (butlast arr ! (2 * i) - last arr) AND 0xff) [0..<25]"
  let ?b = "map (\<lambda>i. (butlast arr ! (2 * i + 1) - last arr) AND 0xff) [0..<25]"
  have la: "length ?a = 25" and lb: "length ?b = 25" by simp_all
  have r: "reordered_of arr = ?a @ ?b @ [0]" by (simp only: reordered_of_def)
  show "i < 25 \<Longrightarrow> reordered_of arr ! i = (butlast arr ! (2 * i) - last arr) mod 256"
    unfolding r by (simp add: nth_append and_255_mod del: upt_Suc)
  show "i < 25 \<Longrightarrow> reordered_of arr ! (25 + i) = (butlast arr ! (2 * i + 1) - last arr) mod 256"
    unfolding r by (simp add: nth_append and_255_mod del: upt_Suc)
  have "(?a @ ?b @ [0]) ! 50 = (?b @ [0]) ! (50 - length ?a)"
    by (subst nth_append) (simp del: upt_Suc)
  also have "\<dots> = [0] ! (25 - length ?b)"
    by (subst nth_append) (simp del: upt_Suc)
  finally show "reordered_of arr ! 50 = 0" unfolding r by simp
qed

text \<open>
  Claim C2. When the token decodes to 51 bytes, with \<open>key\<close> the last byte and \<open>working\<close>
  the 50 bytes before it, the reordering step of \<open>decode_share_ids\<close> yields a buffer
  \<open>reordered\<close> of 51 entries (the one the unpacking step then reads) with
  \<open>reordered[i] = (working[2i] - key) mod 256\<close> and
  \<open>reordered[25+i] = (working[2i+1] - key) mod 256\<close> for every \<open>i\<close> from 0 to 24, and
  \<open>reordered[50] = 0\<close>.
\<close>

theorem reordered_buffer:
  assumes "b64decode (normalize_token s) = Inr bs" and "length bs = 51"
    and "key = last (map uint bs)" and "working = butlast (map uint bs)"
  shows "\<exists>reordered. reorder (map uint bs) = Inr reordered \<and>
           decode_share_ids s = unpack reordered \<and> length reordered = 51 \<and>
           (\<forall>i<25. reordered ! i = (working ! (2 * i) - key) mod 256 \<and>
                   reordered ! (25 + i) = (working ! (2 * i + 1) - key) mod 256) \<and>
           reordered ! 50 = 0"
proof -
  let ?arr = "map uint bs"
  have l: "length ?arr = 51" using assms(2) by simp
  have r: "reorder ?arr = Inr (reordered_of ?arr)" using l by (rule reorder_51)
  have d: "decode_share_ids s = unpack (reordered_of ?arr)"
    using assms(1) l r by (simp add: decode_share_ids_def decode_arr_def)
  have n: "\<forall>i<25. reordered_of ?arr ! i = (working ! (2 * i) - key) mod 256 \<and>
                  reordered_of ?arr ! (25 + i) = (working ! (2 * i + 1) - key) mod 256"
    unfolding assms(3,4) using reordered_of_nth(1,2) by blast
  show ?thesis
    using r d n reordered_of_nth(3) [of ?arr] length_reordered_of [of ?arr] by blast
qed

theorem reordered_buffer_witness:
  "b64decode (normalize_token example_token) = Inr example_bytes \<and> length example_bytes = 51 \<and>
   (\<exists>reordered. reorder (map uint example_bytes) = Inr reordered \<and>
      decode_share_ids example_token = unpack reordered \<and> length reordered = 51 \<and>
      (\<forall>i<25. reordered ! i = (butlast (map uint example_bytes) ! (2 * i) - 5) mod 256 \<and>
              reordered ! (25 + i) = (butlast (map uint example_bytes) ! (2 * i + 1) - 5) mod 256) \<and>
      reordered ! 50 = 0)"
proof -
  have h1: "b64decode (normalize_token example_token) = Inr example_bytes" by code_simp
  have h2: "length example_bytes = 51" by code_simp
  have h3: "5 = last (map uint example_bytes)" by code_simp
  show ?thesis using h1 h2 reordered_buffer [OF h1 h2 h3 refl] by blast
qed

subsection \<open>The unpacked values\<close>

lemma chunks3_nth:
  "chunks3 r = map (\<lambda>i. (r ! (i * 3), r ! (i * 3 + 1), r ! (i * 3 + 2))) [0..<length r div 3]"
proof (induction r rule: chunks3.induct)
  case (1 b1 b2 b3 rest)
  have d: "length (b1 # b2 # b3 # rest) div 3 = Suc (length rest div 3)"
    by simp
  have "[0..<length (b1 # b2 # b3 # rest) div 3] = 0 # map Suc [0..<length rest div 3]"
    unfolding d by (simp add: upt_conv_Cons map_Suc_upt del: upt_Suc)
  then show ?case using 1 by (simp add: comp_def del: upt_Suc)
qed simp_all

lemma chunks3_concat:
  "length r mod 3 = 0 \<Longrightarrow> concat (map (\<lambda>(b1, b2, b3). [b1, b2, b3]) (chunks3 r)) = r"
  by (induction r rule: chunks3.induct) simp_all

lemma spec_values_51: "length r = 51 \<Longrightarrow> spec_values r = values_of r"
  by (simp add: spec_values_def values_of_def chunks3_nth comp_def n1_def n2_def del: upt_Suc)

text \<open>
  Claim C3. The 51-byte reordered buffer is read as 17 consecutive chunks of three bytes;
  each chunk \<open>(b1, b2, b3)\<close> contributes \<open>n1 = (b1 << 4) | (b2 >> 4)\<close> and then
  \<open>n2 = ((b2 & 0x0F) << 8) | b3\<close>, 34 values in all, and \<open>decode_share_ids\<close> returns the
  first 33 of them, in that order: the 34 values without the last one.
\<close>

theorem unpack_chunks:
  assumes "b64decode (normalize_token s) = Inr bs" and "length bs = 51"
  shows "\<exists>reordered. reorder (map uint bs) = Inr reordered \<and>
           length (chunks3 reordered) = 17 \<and>
           concat (map (\<lambda>(b1, b2, b3). [b1, b2, b3]) (chunks3 reordered)) = reordered \<and>
           length (spec_values reordered) = 34 \<and>
           decode_share_ids s = Inr (take 33 (spec_values reordered)) \<and>
           take 33 (spec_values reordered) = butlast (spec_values reordered)"
proof -
  let ?r = "reordered_of (map uint bs)"
  have l: "length ?r = 51" by (rule length_reordered_of)
  have r: "reorder (map uint bs) = Inr ?r" using assms(2) by (simp add: reorder_51)
  have c: "length (chunks3 ?r) = 17" by (simp add: chunks3_nth l del: upt_Suc)
  have cc: "concat (map (\<lambda>(b1, b2, b3). [b1, b2, b3]) (chunks3 ?r)) = ?r"
    by (rule chunks3_concat) (simp add: l)
  have v: "spec_values ?r = values_of ?r" using l by (rule spec_values_51)
  have lv: "length (spec_values ?r) = 34" unfolding v by (rule length_values_of)
  have b: "take 33 (spec_values ?r) = butlast (spec_values ?r)"
    using lv by (simp add: butlast_conv_take)
  have "take 33 (values_of ?r) = butlast (values_of ?r)"
    by (simp add: butlast_conv_take length_values_of)
  then have d: "decode_share_ids s = Inr (take 33 (spec_values ?r))"
    using decode_share_ids_51 [OF assms] by (simp only: v)
  show ?thesis using r c cc lv d b by blast
qed

theorem unpack_chunks_witness:
  "b64decode (normalize_token example_token) = Inr example_bytes \<and> length example_bytes = 51 \<and>
   (\<exists>reordered. reorder (map uint example_bytes) = Inr reordered \<and>
      length (chunks3 reordered) = 17 \<and>
      concat (map (\<lambda>(b1, b2, b3). [b1, b2, b3]) (chunks3 reordered)) = reordered \<and>
      length (spec_values reordered) = 34 \<and>
      decode_share_ids example_token = Inr (take 33 (spec_values reordered)) \<and>
      take 33 (spec_values reordered) = butlast (spec_values reordered))"
proof -
  have h1: "b64decode (normalize_token example_token) = Inr example_bytes" by code_simp
  have h2: "length example_bytes = 51" by code_simp
  show ?thesis using h1 h2 unpack_chunks [OF h1 h2] by blast
qed

subsection \<open>Failure points\<close>

text \<open>
  Claim C4. On every 51-byte buffer, whatever the byte values and so whatever the key, the
  steps after the length check return a result and raise nothing; and whenever
  \<open>decode_share_ids\<close> fails, it fails either with the Base64 decoding error, the library
  call having failed, or with the length error, the decoded length not being 51.
\<close>

theorem decode_total:
  "(length bs = 51 \<longrightarrow> (\<exists>ids. decode_arr (map uint (bs :: 8 word list)) = Inr ids)) \<and>
   (decode_share_ids s = Inl e \<longrightarrow>
      (\<exists>x. b64decode (normalize_token s) = Inl x \<and> e = Base64DecodeFailed x) \<or>
      (\<exists>arr_bytes. b64decode (normalize_token s) = Inr arr_bytes \<and> length arr_bytes \<noteq> 51 \<and>
         e = LengthMismatch (length arr_bytes)))"
proof (intro conjI impI)
  assume "length bs = 51"
  then show "\<exists>ids. decode_arr (map uint bs) = Inr ids" by (simp add: decode_arr_51)
next
  assume f: "decode_share_ids s = Inl e"
  show "(\<exists>x. b64decode (normalize_token s) = Inl x \<and> e = Base64DecodeFailed x) \<or>
      (\<exists>arr_bytes. b64decode (normalize_token s) = Inr arr_bytes \<and> length arr_bytes \<noteq> 51 \<and>
         e = LengthMismatch (length arr_bytes))"
  proof (cases "b64decode (normalize_token s)")
    case (Inl x)
    then show ?thesis using f by (simp add: decode_share_ids_def)
  next
    case (Inr arr_bytes)
    show ?thesis
    proof (cases "length arr_bytes = 51")
      case True
      then show ?thesis using f Inr by (simp add: decode_share_ids_def decode_arr_51)
    next
      case False
      then show ?thesis using f Inr by (auto simp: decode_share_ids_def)
    qed
  qed
qed

theorem decode_total_witness:
  "length example_bytes = 51 \<and> (\<exists>ids. decode_arr (map uint example_bytes) = Inr ids) \<and>
   decode_share_ids ''AAAA'' = Inl (LengthMismatch 3) \<and>
   ((\<exists>x. b64decode (normalize_token ''AAAA'') = Inl x \<and> LengthMismatch 3 = Base64DecodeFailed x) \<or>
    (\<exists>arr_bytes. b64decode (normalize_token ''AAAA'') = Inr arr_bytes \<and> length arr_bytes \<noteq> 51 \<and>
       LengthMismatch 3 = LengthMismatch (length arr_bytes)))"
proof -
  have h1: "length example_bytes = 51" by code_simp
  have h2: "decode_share_ids ''AAAA'' = Inl (LengthMismatch 3)" by code_simp
  show ?thesis
    using h1 h2 decode_total [of example_bytes "''AAAA''" "LengthMismatch 3"] by blast
qed

text \<open>
  Claim C5. For every input string whose normalised form Base64-decodes to a byte sequence
  of a length other than 51, \<open>decode_share_ids\<close> fails with the length error, which carries
  the actual decoded length.
\<close>

theorem wrong_length_fails:
  assumes "b64decode (normalize_token s) = Inr bs" and "length bs \<noteq> 51"
  shows "decode_share_ids s = Inl (LengthMismatch (length bs))"
  using assms by (simp add: decode_share_ids_def)

theorem wrong_length_fails_witness:
  "b64decode (normalize_token ''AAAAAA'') = Inr [0, 0, 0, 0] \<and> length [0, 0, 0, 0 :: 8 word] \<noteq> 51 \<and>
   decode_share_ids ''AAAAAA'' = Inl (LengthMismatch 4)"
proof -
  have h1: "b64decode (normalize_token ''AAAAAA'') = Inr [0, 0, 0, 0]" by code_simp
  have h2: "length [0, 0, 0, 0 :: 8 word] \<noteq> 51" by simp
  show ?thesis using h1 h2 wrong_length_fails [OF h1 h2] by simp
qed

subsection \<open>Normalisation and tokens of an impossible length\<close>

lemma table_pad: "table_a2b_base64 (CHR ''='') = None"
  by (simp add: table_a2b_base64_def)

lemma table_ascii: "table_a2b_base64 c \<noteq> None \<Longrightarrow> (of_char c :: nat) < 128"
  by (simp add: table_a2b_base64_def Let_def split: if_splits)

lemma a2b_step:
  assumes v: "table_a2b_base64 c = Some v" and q: "q < 4"
  shows "\<exists>p1 l1 out1. a2b_loop (c # cs) q p l out = a2b_loop cs ((q + 1) mod 4) p1 l1 out1"
proof -
  have np: "c \<noteq> CHR ''=''" using v table_pad by auto
  have e: "a2b_loop (c # cs) q p l out =
     (if q = 0 then a2b_loop cs 1 0 v out
      else if q = 1 then a2b_loop cs 2 0 (v AND 0x0f) (out @ [push_bit 2 l OR drop_bit 4 v])
      else if q = 2 then a2b_loop cs 3 0 (v AND 0x03) (out @ [push_bit 4 l OR drop_bit 2 v])
      else a2b_loop cs 0 0 0 (out @ [push_bit 6 l OR v]))"
    using np v by (simp only: a2b_loop.simps if_False option.case)
  consider "q = 0" | "q = 1" | "q = 2" | "q = 3" using q by linarith
  then show ?thesis
  proof cases
    case 1
    have m: "(q + 1) mod 4 = 1" using 1 by simp
    have "a2b_loop (c # cs) q p l out = a2b_loop cs 1 0 v out"
      unfolding e using 1 by simp
    then show ?thesis unfolding m by (intro exI)
  next
    case 2
    have m: "(q + 1) mod 4 = 2" using 2 by simp
    have "a2b_loop (c # cs) q p l out = a2b_loop cs 2 0 (v AND 0x0f) (out @ [push_bit 2 l OR drop_bit 4 v])"
      unfolding e using 2 by simp
    then show ?thesis unfolding m by (intro exI)
  next
    case 3
    have m: "(q + 1) mod 4 = 3" using 3 by simp
    have "a2b_loop (c # cs) q p l out = a2b_loop cs 3 0 (v AND 0x03) (out @ [push_bit 4 l OR drop_bit 2 v])"
      unfolding e using 3 by simp
    then show ?thesis unfolding m by (intro exI)
  next
    case 4
    have m: "(q + 1) mod 4 = 0" using 4 by simp
    have "a2b_loop (c # cs) q p l out = a2b_loop cs 0 0 0 (out @ [push_bit 6 l OR v])"
      unfolding e using 4 by simp
    then show ?thesis unfolding m by (intro exI)
  qed
qed

lemma a2b_loop_data:
  assumes "\<forall>c\<in>set cs. table_a2b_base64 c \<noteq> None" and "q < 4"
  shows "\<exists>p' l' out'. a2b_loop (cs @ rest) q p l out = a2b_loop rest ((q + length cs) mod 4) p' l' out'"
  using assms
proof (induction cs arbitrary: q p l out)
  case Nil
  then have "a2b_loop ([] @ rest) q p l out = a2b_loop rest ((q + length ([] :: string)) mod 4) p l out"
    by simp
  then show ?case by (intro exI)
next
  case (Cons c cs)
  from Cons.prems obtain v where v: "table_a2b_base64 c = Some v" by auto
  have rest: "\<forall>c\<in>set cs. table_a2b_base64 c \<noteq> None" using Cons.prems by simp
  have m: "((q + 1) mod 4 + length cs) mod 4 = (q + length (c # cs)) mod 4"
    by (simp add: mod_simps)
  have q': "(q + 1) mod 4 < 4" by simp
  from a2b_step [OF v Cons.prems(2), of "cs @ rest" p l out] obtain p1 l1 out1 where
    s: "a2b_loop ((c # cs) @ rest) q p l out = a2b_loop (cs @ rest) ((q + 1) mod 4) p1 l1 out1"
    by auto
  from Cons.IH [OF rest q', of p1 l1 out1] obtain p' l' out' where
    "a2b_loop (cs @ rest) ((q + 1) mod 4) p1 l1 out1 =
       a2b_loop rest (((q + 1) mod 4 + length cs) mod 4) p' l' out'"
    by blast
  then have "a2b_loop ((c # cs) @ rest) q p l out = a2b_loop rest ((q + length (c # cs)) mod 4) p' l' out'"
    unfolding s m .
  then show ?case by (intro exI)
qed

lemma translate_token_char:
  assumes "token_char c"
  shows "table_a2b_base64 (if (if c = CHR ''-'' then CHR ''+'' else c) = CHR ''_'' then CHR ''/''
            else (if c = CHR ''-'' then CHR ''+'' else c)) \<noteq> None"
proof (cases "c = CHR ''-''")
  case True
  then show ?thesis by (simp add: table_a2b_base64_def)
next
  case False
  show ?thesis
  proof (cases "c = CHR ''_''")
    case True
    then show ?thesis by (simp add: table_a2b_base64_def)
  next
    case nu: False
    then show ?thesis using False assms by (simp add: token_char_def)
  qed
qed

lemma translated_data:
  assumes "list_all token_char s"
  shows "\<forall>c\<in>set (replace (CHR ''_'') (CHR ''/'') (replace (CHR ''-'') (CHR ''+'') s)).
           table_a2b_base64 c \<noteq> None"
proof
  fix c assume "c \<in> set (replace (CHR ''_'') (CHR ''/'') (replace (CHR ''-'') (CHR ''+'') s))"
  then obtain d where d: "d \<in> set s"
    and c: "c = (if (if d = CHR ''-'' then CHR ''+'' else d) = CHR ''_'' then CHR ''/''
            else (if d = CHR ''-'' then CHR ''+'' else d))"
    unfolding replace_def by (auto simp only: set_map map_map comp_def image_iff)
  have "token_char d" using assms d by (simp add: list_all_iff)
  then show "table_a2b_base64 c \<noteq> None" unfolding c by (rule translate_token_char)
qed

lemma pads_after_one: "a2b_loop [CHR ''='', CHR ''='', CHR ''=''] 1 p l out = Inl InvalidLength"
  by simp

lemma normalize_token_eq:
  "normalize_token s =
     map (\<lambda>c. if c = CHR ''-'' then CHR ''+'' else if c = CHR ''_'' then CHR ''/'' else c) s @
     replicate ((4 - length s mod 4) mod 4) (CHR ''='')"
proof -
  have m: "replace (CHR ''_'') (CHR ''/'') (replace (CHR ''-'') (CHR ''+'') s) =
      map (\<lambda>c. if c = CHR ''-'' then CHR ''+'' else if c = CHR ''_'' then CHR ''/'' else c) s"
    by (simp add: replace_def)
  have l: "length (map (\<lambda>c. if c = CHR ''-'' then CHR ''+'' else if c = CHR ''_'' then CHR ''/'' else c) s) = length s"
    by simp
  show ?thesis
  proof (cases "length s mod 4 = 0")
    case True
    then show ?thesis unfolding normalize_token_def Let_def m l by simp
  next
    case False
    then have "(4 - length s mod 4) mod 4 = 4 - length s mod 4" by simp
    then show ?thesis unfolding normalize_token_def Let_def m l using False by simp
  qed
qed

lemma length_normalize_token: "length (normalize_token s) mod 4 = 0"
proof -
  have e: "(length s + (4 - length s mod 4) mod 4) mod 4 =
      (length s mod 4 + (4 - length s mod 4) mod 4) mod 4"
    by (simp only: mod_add_left_eq)
  have "length s mod 4 < 4" by simp
  then consider "length s mod 4 = 0" | "length s mod 4 = 1" | "length s mod 4 = 2"
    | "length s mod 4 = 3" by linarith
  then have "(length s mod 4 + (4 - length s mod 4) mod 4) mod 4 = 0"
    by cases simp_all
  then have "(length s + (4 - length s mod 4) mod 4) mod 4 = 0" by (simp only: e)
  then show ?thesis by (simp only: normalize_token_eq length_append length_map length_replicate)
qed

lemma invalid_length:
  assumes a: "list_all token_char s" and l: "length s mod 4 = 1"
  shows "b64decode (normalize_token s) = Inl InvalidLength"
proof -
  let ?t = "replace (CHR ''_'') (CHR ''/'') (replace (CHR ''-'') (CHR ''+'') s)"
  let ?pad = "[CHR ''='', CHR ''='', CHR ''='']"
  have lt: "length ?t = length s" by (simp add: replace_def)
  have r: "replicate (4 - 1) (CHR ''='') = ?pad" by (simp add: numeral_eq_Suc)
  have n: "normalize_token s = ?t @ ?pad"
    unfolding normalize_token_def Let_def lt l using r by simp
  have d: "\<forall>c\<in>set ?t. table_a2b_base64 c \<noteq> None" using a by (rule translated_data)
  then have "\<forall>c\<in>set ?t. (of_char c :: nat) < 128" using table_ascii by blast
  then have "\<forall>c\<in>set (?t @ ?pad). \<not> (of_char c :: nat) \<ge> 128" by auto
  then have asc: "\<not> list_ex (\<lambda>c. (of_char c :: nat) \<ge> 128) (normalize_token s)"
    unfolding n list_ex_iff by blast
  have q: "(0 + length ?t) mod 4 = 1" unfolding lt using l by simp
  from a2b_loop_data [OF d, of 0 ?pad 0 0 "[]"] obtain p' l' out' where
    "a2b_loop (?t @ ?pad) 0 0 0 [] = a2b_loop ?pad ((0 + length ?t) mod 4) p' l' out'"
    by auto
  then have "a2b_loop (normalize_token s) 0 0 0 [] = Inl InvalidLength"
    unfolding n q by (simp only: pads_after_one)
  then show ?thesis using asc by (simp add: b64decode_def a2b_base64_def)
qed

text \<open>
  Claim C6, as the code has it. \<open>decode_share_ids\<close> first turns \<open>-\<close> into \<open>+\<close> and \<open>_\<close>
  into \<open>/\<close>, then appends \<open>=\<close> until the length is a multiple of 4, and decodes the
  outcome; for every input string made only of characters of the Base64 alphabet, standard
  or URL-safe, whose length is congruent to 1 modulo 4, decoding fails with the decode
  error.
\<close>

theorem normalize_then_decode:
  "normalize_token s =
     map (\<lambda>c. if c = CHR ''-'' then CHR ''+'' else if c = CHR ''_'' then CHR ''/'' else c) s @
     replicate ((4 - length s mod 4) mod 4) (CHR ''='') \<and>
   length (normalize_token s) mod 4 = 0 \<and>
   (list_all token_char s \<and> length s mod 4 = 1 \<longrightarrow>
      b64decode (normalize_token s) = Inl InvalidLength \<and>
      decode_share_ids s = Inl (Base64DecodeFailed InvalidLength))"
proof (intro conjI impI)
  show "normalize_token s =
     map (\<lambda>c. if c = CHR ''-'' then CHR ''+'' else if c = CHR ''_'' then CHR ''/'' else c) s @
     replicate ((4 - length s mod 4) mod 4) (CHR ''='')"
    by (rule normalize_token_eq)
  show "length (normalize_token s) mod 4 = 0" by (rule length_normalize_token)
next
  assume h: "list_all token_char s \<and> length s mod 4 = 1"
  then show e: "b64decode (normalize_token s) = Inl InvalidLength"
    using invalid_length by blast
  then show "decode_share_ids s = Inl (Base64DecodeFailed InvalidLength)"
    by (simp add: decode_share_ids_def)
qed

theorem normalize_then_decode_witness:
  "list_all token_char ''Ab-_9'' \<and> length ''Ab-_9'' mod 4 = 1 \<and>
   normalize_token ''Ab-_9'' = ''Ab+/9==='' \<and>
   decode_share_ids ''Ab-_9'' = Inl (Base64DecodeFailed InvalidLength)"
proof -
  have h: "list_all token_char ''Ab-_9'' \<and> length ''Ab-_9'' mod 4 = 1" by code_simp
  have n: "normalize_token ''Ab-_9'' = ''Ab+/9===''" by code_simp
  show ?thesis using h n normalize_then_decode [of "''Ab-_9''"] by blast
qed

text \<open>
  The claim as first stated fails: the lenient decoder skips a space, so a string of 69
  characters, 68 of the alphabet and one space, decodes to 51 bytes and to 33 identifiers.
\<close>

theorem length_1_mod_4_counterexample:
  "length example_spaced_token mod 4 = 1 \<and>
   decode_share_ids example_spaced_token = Inr example_ids"
proof -
  have l: "length example_spaced_token mod 4 = 1" by code_simp
  have d: "decode_share_ids example_spaced_token = Inr example_ids" by code_simp
  show ?thesis using l d by simp
qed

section \<open>Properties of the share-ID to identifier map\<close>







lemma cache_hit:
  "SHARE_ID_TO_ID_MAP st = Some m \<Longrightarrow> m \<noteq> [] \<Longrightarrow> get_card_id_map session_get st = (Inr m, st)"
  by (simp add: get_card_id_map_def)

lemma cache_miss:
  "SHARE_ID_TO_ID_MAP st = None \<or> SHARE_ID_TO_ID_MAP st = Some [] \<Longrightarrow>
   get_card_id_map session_get st = build_map session_get st"
  by (auto simp: get_card_id_map_def)

lemma build_map_result:
  assumes "build_map session_get st = (Inr m, st1)"
  shows "st1 = st\<lparr>requests := requests st @ urls, SHARE_ID_TO_ID_MAP := Some m\<rparr>"
  using assms
  by (auto simp: build_map_def finish_build_def start_fetch_def split: sum.splits)

lemma run_events_cached:
  "SHARE_ID_TO_ID_MAP st = Some m \<Longrightarrow> m \<noteq> [] \<Longrightarrow>
   run_events evs (st, 0) = (replicate (length (filter (\<lambda>e. e = Start) evs)) (Inr m), st, 0)"
proof (induction evs)
  case Nil
  then show ?case by simp
next
  case (Cons ev evs)
  then show ?case by (cases ev) simp_all
qed

lemma run_events_call:
  "run_events (Start # Complete session_get # evs) (st, 0) =
     (case get_card_id_map session_get st of
        (r, st1) \<Rightarrow> (case run_events evs (st1, 0) of (rs, s) \<Rightarrow> (r # rs, s)))"
proof (cases "SHARE_ID_TO_ID_MAP st = None \<or> SHARE_ID_TO_ID_MAP st = Some []")
  case True
  then have g: "get_card_id_map session_get st = finish_build session_get (start_fetch st)"
    by (simp add: cache_miss build_map_def)
  from True show ?thesis unfolding g by (auto split: prod.splits)
next
  case False
  then obtain m where m: "SHARE_ID_TO_ID_MAP st = Some m" "m \<noteq> []" by auto
  then show ?thesis by (simp add: cache_hit split: prod.splits)
qed

lemma example_partial_call:
  "get_card_id_map example_partial_net initial_state =
     (Inr [(1, 1101)], \<lparr>SHARE_ID_TO_ID_MAP = Some [(1, 1101)], requests = urls\<rparr>)"
  by (simp add: example_partial_net_def get_card_id_map_def build_map_def finish_build_def
      start_fetch_def initial_state_def urls_def add_item_def)




text \<open>
  Claim C8, as the code has it. Once a call that no other call overlaps (it starts with no
  call in flight and ends before any other starts) has returned a non-empty map, that map
  is the cached one, the call itself has requested the catalogs at most once, and, however
  the later calls are scheduled, each of them returns the cached map at once and requests
  nothing: the process state stays as that call left it, and no call is ever in flight.
\<close>

theorem cached_map_reused:
  assumes "get_card_id_map session_get st = (Inr m, st1)" and "m \<noteq> []"
  shows "SHARE_ID_TO_ID_MAP st1 = Some m \<and>
         (requests st1 = requests st \<or> requests st1 = requests st @ urls) \<and>
         run_events (Start # Complete session_get # evs) (st, 0) =
           (Inr m # replicate (length (filter (\<lambda>e. e = Start) evs)) (Inr m), st1, 0)"
proof -
  have c: "SHARE_ID_TO_ID_MAP st1 = Some m \<and>
      (requests st1 = requests st \<or> requests st1 = requests st @ urls)"
  proof (cases "SHARE_ID_TO_ID_MAP st = None \<or> SHARE_ID_TO_ID_MAP st = Some []")
    case True
    then have "build_map session_get st = (Inr m, st1)" using assms(1) cache_miss by metis
    then have "st1 = st\<lparr>requests := requests st @ urls, SHARE_ID_TO_ID_MAP := Some m\<rparr>"
      by (rule build_map_result)
    then show ?thesis by simp
  next
    case False
    then obtain m' where m': "SHARE_ID_TO_ID_MAP st = Some m'" "m' \<noteq> []" by auto
    then have "get_card_id_map session_get st = (Inr m', st)" by (rule cache_hit)
    then show ?thesis using assms(1) m' by simp
  qed
  then have "run_events evs (st1, 0) =
      (replicate (length (filter (\<lambda>e. e = Start) evs)) (Inr m), st1, 0)"
    using assms(2) run_events_cached by blast
  then have "run_events (Start # Complete session_get # evs) (st, 0) =
      (Inr m # replicate (length (filter (\<lambda>e. e = Start) evs)) (Inr m), st1, 0)"
    unfolding run_events_call assms(1) by simp
  then show ?thesis using c by simp
qed

theorem cached_map_reused_witness:
  "get_card_id_map example_partial_net initial_state =
     (Inr [(1, 1101)], \<lparr>SHARE_ID_TO_ID_MAP = Some [(1, 1101)], requests = urls\<rparr>) \<and>
   [(1, 1101)] \<noteq> ([] :: id_map) \<and>
   run_events [Start, Complete example_partial_net, Start, Complete example_failing_net, Start]
     (initial_state, 0) =
     ([Inr [(1, 1101)], Inr [(1, 1101)], Inr [(1, 1101)]],
      \<lparr>SHARE_ID_TO_ID_MAP = Some [(1, 1101)], requests = urls\<rparr>, 0)"
proof -
  have h1: "get_card_id_map example_partial_net initial_state =
     (Inr [(1, 1101)], \<lparr>SHARE_ID_TO_ID_MAP = Some [(1, 1101)], requests = urls\<rparr>)"
    by (rule example_partial_call)
  have h2: "[(1, 1101)] \<noteq> ([] :: id_map)" by simp
  have f: "length (filter (\<lambda>e. e = Start) [Start, Complete example_failing_net, Start]) = 2"
    by simp
  have r: "replicate 2 (Inr [(1, 1101)] :: resolve_error + id_map) = [Inr [(1, 1101)], Inr [(1, 1101)]]"
    by (simp add: numeral_2_eq_2)
  have "run_events (Start # Complete example_partial_net #
          [Start, Complete example_failing_net, Start]) (initial_state, 0) =
        (Inr [(1, 1101)] # replicate 2 (Inr [(1, 1101)]),
         \<lparr>SHARE_ID_TO_ID_MAP = Some [(1, 1101)], requests = urls\<rparr>, 0)"
    using cached_map_reused [OF h1 h2, of "[Start, Complete example_failing_net, Start]"]
    unfolding f by (rule conjunct2 [THEN conjunct2])
  then have e: "run_events [Start, Complete example_partial_net, Start,
          Complete example_failing_net, Start] (initial_state, 0) =
     ([Inr [(1, 1101)], Inr [(1, 1101)], Inr [(1, 1101)]],
      \<lparr>SHARE_ID_TO_ID_MAP = Some [(1, 1101)], requests = urls\<rparr>, 0)"
    unfolding r .
  show ?thesis by (intro conjI) (rule h1 h2 e)+
qed

text \<open>
  The claim as first stated fails twice over. A first call that ends with an empty map
  assigns the global, and the next call requests the catalogs again. And when two calls
  overlap, both request the catalogs; the one that ends last, here with an empty map,
  overwrites the non-empty map the other has stored, and a later call requests the
  catalogs a third time.
\<close>

theorem refetched_counterexample:
  "run_events [Start, Complete example_empty_net, Start, Complete example_empty_net]
     (initial_state, 0) =
     ([Inr [], Inr []], \<lparr>SHARE_ID_TO_ID_MAP = Some [], requests = urls @ urls\<rparr>, 0) \<and>
   run_events [Start, Start, Complete example_partial_net, Complete example_empty_net, Start]
     (initial_state, 0) =
     ([Inr [(1, 1101)], Inr []],
      \<lparr>SHARE_ID_TO_ID_MAP = Some [], requests = urls @ urls @ urls\<rparr>, 1)"
  by (simp add: example_empty_net_def example_partial_net_def finish_build_def start_fetch_def
      initial_state_def urls_def add_item_def)

section \<open>Properties of the slot classification\<close>

lemma digits_small: "n < 10 \<Longrightarrow> digits n = [digit_char n]"
  by (simp add: digits.simps)

lemma digits_large: "\<not> n < 10 \<Longrightarrow> digits n = digits (n div 10) @ [digit_char (n mod 10)]"
  by (subst digits.simps) simp

lemma length_resolve_ids: "length (resolve_ids id_map share_ids) = length share_ids"
  by (simp add: resolve_ids_def)

lemma length_main_cards: "3 \<le> length card_ids \<Longrightarrow> length (main_cards card_ids) = 3"
  by (simp add: main_cards_def)

lemma main_cards_nth:
  assumes "i < 3" and "3 \<le> length card_ids"
  shows "main_cards card_ids ! i =
     (if card_ids ! i \<noteq> 0 \<and> length (str (card_ids ! i)) \<ge> 4 then Some (card_ids ! i) else None)"
  using assms by (simp add: main_cards_def)

lemma small_cards_invalid_replicate:
  "small_cards_invalid card_ids =
     replicate (length (drop 3 card_ids) - length (small_cards_valid card_ids)) None"
proof -
  let ?P = "\<lambda>cid. cid \<noteq> 0 \<and> length (str cid) \<ge> 6"
  have e: "(\<lambda>cid. \<not> cid \<noteq> 0 \<or> length (str cid) < 6) = (\<lambda>cid. \<not> ?P cid)"
    by (auto simp: fun_eq_iff)
  have "length (filter ?P (drop 3 card_ids)) + length (filter (\<lambda>cid. \<not> ?P cid) (drop 3 card_ids)) =
      length (drop 3 card_ids)"
    by (rule sum_length_filter_compl)
  then have "length (filter (\<lambda>cid. \<not> ?P cid) (drop 3 card_ids)) =
      length (drop 3 card_ids) - length (small_cards_valid card_ids)"
    unfolding small_cards_valid_def by linarith
  then show ?thesis
    unfolding small_cards_invalid_def e by (simp add: map_replicate_const)
qed

lemma length_small_cards_valid: "length (small_cards_valid card_ids) \<le> length (drop 3 card_ids)"
  unfolding small_cards_valid_def by (rule length_filter_le)

lemma arrange_split:
  assumes "length share_ids = 33"
  shows "take 3 (arrange_card_ids id_map share_ids) = main_cards (resolve_ids id_map share_ids)"
    and "drop 3 (arrange_card_ids id_map share_ids) =
       map Some (sort (small_cards_valid (resolve_ids id_map share_ids))) @
       replicate (30 - length (small_cards_valid (resolve_ids id_map share_ids))) None"
    and "length (arrange_card_ids id_map share_ids) = 33"
proof -
  let ?c = "resolve_ids id_map share_ids"
  have lc: "length ?c = 33" using assms by (simp add: length_resolve_ids)
  have lm: "length (main_cards ?c) = 3" using lc by (simp add: length_main_cards)
  have ld: "length (drop 3 ?c) = 30" using lc by simp
  have inv: "small_cards_invalid ?c = replicate (30 - length (small_cards_valid ?c)) None"
    using small_cards_invalid_replicate [of ?c] unfolding ld .
  have a: "arrange_card_ids id_map share_ids =
      main_cards ?c @ (map Some (sort (small_cards_valid ?c)) @
        replicate (30 - length (small_cards_valid ?c)) None)"
    unfolding arrange_card_ids_def Let_def inv ..
  show "take 3 (arrange_card_ids id_map share_ids) = main_cards ?c"
    unfolding a using lm by simp
  show "drop 3 (arrange_card_ids id_map share_ids) =
       map Some (sort (small_cards_valid ?c)) @ replicate (30 - length (small_cards_valid ?c)) None"
    unfolding a using lm by simp
  have "length (small_cards_valid ?c) \<le> 30"
    using length_small_cards_valid [of ?c] unfolding ld .
  then show "length (arrange_card_ids id_map share_ids) = 33"
    unfolding a using lm by simp
qed

lemma classify_mset:
  "mset (map Some (filter P xs) @ map (\<lambda>x. None) (filter (\<lambda>x. \<not> P x) xs)) =
   mset (map (\<lambda>x. if P x then Some x else None) xs)"
  by (induction xs) auto

lemma example_resolved: "resolve_ids example_id_map example_ids = example_card_ids"
  by (simp add: resolve_ids_def example_id_map_def example_ids_def dict_get_def example_card_ids_def)

lemma example_main: "main_cards example_card_ids = [Some 1101, None, None]"
  by (simp add: main_cards_def example_card_ids_def str_def digits_small digits_large)

lemma example_valid:
  "small_cards_valid example_card_ids = [332001, 211011, 312004, 211011, 330001]"
  by (simp add: small_cards_valid_def example_card_ids_def str_def digits_small digits_large)

lemma example_sorted:
  "sort [332001, 211011, 312004, 211011, 330001 :: int] = [211011, 211011, 312004, 330001, 332001]"
  by simp

lemma example_arranged:
  "arrange_card_ids example_id_map example_ids =
     [Some 1101, None, None, Some 211011, Some 211011, Some 312004, Some 330001, Some 332001] @
     replicate 25 None"
proof -
  have l: "length (drop 3 example_card_ids) - length (small_cards_valid example_card_ids) = 25"
    unfolding example_valid by (simp add: example_card_ids_def)
  have i: "small_cards_invalid example_card_ids = replicate 25 None"
    by (simp only: small_cards_invalid_replicate l)
  show ?thesis
    unfolding arrange_card_ids_def Let_def example_resolved example_main example_valid
      example_sorted i
    by (simp only: list.map append_Cons append_Nil)
qed

text \<open>
  Claim C9. For every decoded sequence of share-IDs, the list handed to image fetching
  has 33 entries: positions 0 to 2 hold the three main-slot entries at their own
  positions (each one the resolved identifier, or the placeholder), and positions 3 to 32
  hold the valid card identifiers in ascending order, all of them and no others, followed
  only by placeholders.
\<close>

theorem arranged_order:
  assumes "decode_share_ids s = Inr share_ids"
  shows "length (arrange_card_ids id_map share_ids) = 33 \<and>
     (\<forall>i<3. arrange_card_ids id_map share_ids ! i = Some (resolve_ids id_map share_ids ! i) \<or>
            arrange_card_ids id_map share_ids ! i = None) \<and>
     (\<exists>valid k. drop 3 (arrange_card_ids id_map share_ids) = map Some valid @ replicate k None \<and>
        sorted valid \<and> mset valid = mset (small_cards_valid (resolve_ids id_map share_ids)) \<and>
        length valid + k = 30)"
proof -
  let ?c = "resolve_ids id_map share_ids"
  let ?out = "arrange_card_ids id_map share_ids"
  have l: "length share_ids = 33" using assms decode_share_ids_shape by blast
  have lc: "3 \<le> length ?c" using l by (simp add: length_resolve_ids)
  have ld: "length (drop 3 ?c) = 30" using l by (simp add: length_resolve_ids)
  have m: "\<forall>i<3. ?out ! i = Some (?c ! i) \<or> ?out ! i = None"
  proof (intro allI impI)
    fix i :: nat assume i: "i < 3"
    have "?out ! i = take 3 ?out ! i" using i by simp
    also have "\<dots> = main_cards ?c ! i" by (simp only: arrange_split(1) [OF l])
    finally show "?out ! i = Some (?c ! i) \<or> ?out ! i = None"
      using main_cards_nth [OF i lc] by simp
  qed
  let ?valid = "sort (small_cards_valid ?c)"
  let ?k = "30 - length (small_cards_valid ?c)"
  have "length (small_cards_valid ?c) \<le> 30"
    using length_small_cards_valid [of ?c] unfolding ld .
  then have k: "length ?valid + ?k = 30" by simp
  have d: "drop 3 ?out = map Some ?valid @ replicate ?k None" by (rule arrange_split(2) [OF l])
  have s: "sorted ?valid" by simp
  have p: "mset ?valid = mset (small_cards_valid ?c)" by simp
  have "\<exists>valid k. drop 3 ?out = map Some valid @ replicate k None \<and>
        sorted valid \<and> mset valid = mset (small_cards_valid ?c) \<and> length valid + k = 30"
    using d s p k by blast
  then show ?thesis using arrange_split(3) [OF l] m by blast
qed

theorem arranged_order_witness:
  "decode_share_ids example_token = Inr example_ids \<and>
   arrange_card_ids example_id_map example_ids =
     [Some 1101, None, None, Some 211011, Some 211011, Some 312004, Some 330001, Some 332001] @
     replicate 25 None \<and>
   length (arrange_card_ids example_id_map example_ids) = 33 \<and>
   (arrange_card_ids example_id_map example_ids ! 0 =
      Some (resolve_ids example_id_map example_ids ! 0) \<or>
    arrange_card_ids example_id_map example_ids ! 0 = None) \<and>
   (arrange_card_ids example_id_map example_ids ! 1 =
      Some (resolve_ids example_id_map example_ids ! 1) \<or>
    arrange_card_ids example_id_map example_ids ! 1 = None) \<and>
   (arrange_card_ids example_id_map example_ids ! 2 =
      Some (resolve_ids example_id_map example_ids ! 2) \<or>
    arrange_card_ids example_id_map example_ids ! 2 = None) \<and>
   (\<exists>valid k. drop 3 (arrange_card_ids example_id_map example_ids) =
        map Some valid @ replicate k None \<and>
      sorted valid \<and> mset valid = mset (small_cards_valid (resolve_ids example_id_map example_ids)) \<and>
      length valid + k = 30)"
proof -
  have h: "decode_share_ids example_token = Inr example_ids" by code_simp
  have n: "(0::nat) < 3" "(1::nat) < 3" "(2::nat) < 3" by simp_all
  note t = arranged_order [OF h, of example_id_map]
  note q = t [THEN conjunct2, THEN conjunct1, rule_format]
  show ?thesis
    by (intro conjI)
      (rule h example_arranged t [THEN conjunct1] q [OF n(1)] q [OF n(2)] q [OF n(3)]
        t [THEN conjunct2, THEN conjunct2])+
qed

text \<open>
  Claim C10. In the slot classification, the entry at a main position (0 to 2) is the
  resolved identifier when it is truthy and its decimal string has at least 4 characters,
  and the placeholder \<open>None\<close> otherwise; among the card positions (3 to 32) an identifier
  is kept when it is truthy and its decimal string has at least 6 characters, and every
  other entry is replaced by the placeholder \<open>None\<close>: the entries at the card positions are,
  up to their order, the resolved identifiers each classified in this way.
\<close>

theorem slot_classification:
  assumes "length share_ids = 33"
  shows "(\<forall>i<3. arrange_card_ids id_map share_ids ! i =
            (if resolve_ids id_map share_ids ! i \<noteq> 0 \<and>
                length (str (resolve_ids id_map share_ids ! i)) \<ge> 4
             then Some (resolve_ids id_map share_ids ! i) else None)) \<and>
         mset (drop 3 (arrange_card_ids id_map share_ids)) =
           image_mset (\<lambda>cid. if cid \<noteq> 0 \<and> length (str cid) \<ge> 6 then Some cid else None)
             (mset (drop 3 (resolve_ids id_map share_ids)))"
proof -
  let ?c = "resolve_ids id_map share_ids"
  let ?out = "arrange_card_ids id_map share_ids"
  let ?P = "\<lambda>cid. cid \<noteq> 0 \<and> length (str cid) \<ge> 6"
  have lc: "3 \<le> length ?c" using assms by (simp add: length_resolve_ids)
  have m: "\<forall>i<3. ?out ! i =
      (if ?c ! i \<noteq> 0 \<and> length (str (?c ! i)) \<ge> 4 then Some (?c ! i) else None)"
  proof (intro allI impI)
    fix i :: nat assume i: "i < 3"
    have "?out ! i = take 3 ?out ! i" using i by simp
    also have "\<dots> = main_cards ?c ! i" by (simp only: arrange_split(1) [OF assms])
    finally show "?out ! i =
        (if ?c ! i \<noteq> 0 \<and> length (str (?c ! i)) \<ge> 4 then Some (?c ! i) else None)"
      using main_cards_nth [OF i lc] by simp
  qed
  have lm: "length (main_cards ?c) = 3" using lc by (rule length_main_cards)
  have e: "(\<lambda>cid. \<not> cid \<noteq> 0 \<or> length (str cid) < 6) = (\<lambda>cid. \<not> ?P cid)"
    by (auto simp: fun_eq_iff)
  have d: "drop 3 ?out = map Some (sort (small_cards_valid ?c)) @ small_cards_invalid ?c"
    unfolding arrange_card_ids_def Let_def using lm by simp
  have "mset (drop 3 ?out) = mset (map Some (small_cards_valid ?c) @ small_cards_invalid ?c)"
    unfolding d by simp
  also have "\<dots> = mset (map (\<lambda>cid. if ?P cid then Some cid else None) (drop 3 ?c))"
    unfolding small_cards_valid_def small_cards_invalid_def e by (rule classify_mset)
  finally have "mset (drop 3 ?out) =
      image_mset (\<lambda>cid. if ?P cid then Some cid else None) (mset (drop 3 ?c))"
    by simp
  then show ?thesis using m by blast
qed

theorem slot_classification_witness:
  "length example_ids = 33 \<and>
   arrange_card_ids example_id_map example_ids ! 0 =
     (if resolve_ids example_id_map example_ids ! 0 \<noteq> 0 \<and>
         length (str (resolve_ids example_id_map example_ids ! 0)) \<ge> 4
      then Some (resolve_ids example_id_map example_ids ! 0) else None) \<and>
   arrange_card_ids example_id_map example_ids ! 1 =
     (if resolve_ids example_id_map example_ids ! 1 \<noteq> 0 \<and>
         length (str (resolve_ids example_id_map example_ids ! 1)) \<ge> 4
      then Some (resolve_ids example_id_map example_ids ! 1) else None) \<and>
   arrange_card_ids example_id_map example_ids ! 2 =
     (if resolve_ids example_id_map example_ids ! 2 \<noteq> 0 \<and>
         length (str (resolve_ids example_id_map example_ids ! 2)) \<ge> 4
      then Some (resolve_ids example_id_map example_ids ! 2) else None) \<and>
   mset (drop 3 (arrange_card_ids example_id_map example_ids)) =
     image_mset (\<lambda>cid. if cid \<noteq> 0 \<and> length (str cid) \<ge> 6 then Some cid else None)
       (mset (drop 3 (resolve_ids example_id_map example_ids)))"
proof -
  have h: "length example_ids = 33" by (simp add: example_ids_def)
  have n: "(0::nat) < 3" "(1::nat) < 3" "(2::nat) < 3" by simp_all
  note t = slot_classification [OF h, of example_id_map]
  note q = t [THEN conjunct1, rule_format]
  show ?thesis
    by (intro conjI) (rule h q [OF n(1)] q [OF n(2)] q [OF n(3)] t [THEN conjunct2])+
qed

end
